theory Spec2Isabelle
  imports Main
begin

section \<open>Values exchanged with the external client\<close>

text \<open>
  The access token recorded by \<^verbatim>\<open>setAccessToken(accessToken: string)\<close> is a string.
  Errors are opaque values.  The profile accessors of the client
  (\<^verbatim>\<open>getUser()\<close>, \<^verbatim>\<open>getIdTokenClaims()\<close>) resolve to an object or to
  \<^verbatim>\<open>undefined\<close> (\<open>None\<close>); the streams \<^verbatim>\<open>user$\<close> and
  \<^verbatim>\<open>idTokenClaims$\<close> emit either that result or the literal \<^verbatim>\<open>null\<close>
  of \<^verbatim>\<open>of(null)\<close>.
\<close>

type_synonym token = string

datatype error = Error string

datatype profile = Profile string

datatype derived_value = Null | FromClient "profile option"

text \<open>A notification travelling down a pipeline: a value or the terminating error.\<close>

datatype 'a notification = Next 'a | Failed error

section \<open>The access-token trigger (\<^verbatim>\<open>part_000\<close>, lines 41--55)\<close>

text \<open>
  \<^verbatim>\<open>scan((acc, current) => ({previous: acc.current, current}), {current: null, previous: null})\<close>
  followed by \<^verbatim>\<open>filter(({previous, current}) => previous !== current)\<close>.
  \<open>None\<close> is the \<^verbatim>\<open>null\<close> of the seed.
\<close>

record scan_acc =
  current :: "token option"
  previous :: "token option"

definition seed :: scan_acc where
  "seed = \<lparr>current = None, previous = None\<rparr>"

definition accumulate :: "scan_acc \<Rightarrow> token option \<Rightarrow> scan_acc" where
  "accumulate a cur = \<lparr>current = cur, previous = current a\<rparr>"

definition changed :: "scan_acc \<Rightarrow> bool" where
  "changed a = (previous a \<noteq> current a)"

text \<open>The operator \<^verbatim>\<open>scan\<close> on a finite run of a stream: one output per input.\<close>

fun rx_scan :: "('a \<Rightarrow> 'b \<Rightarrow> 'a) \<Rightarrow> 'a \<Rightarrow> 'b list \<Rightarrow> 'a list" where
  "rx_scan f a [] = []"
| "rx_scan f a (x # xs) = f a x # rx_scan f (f a x) xs"

text \<open>
  \<^verbatim>\<open>accessTokenTrigger$\<close> for one subscription that receives the tokens \<open>ts\<close>
  from \<^verbatim>\<open>accessToken$\<close>, in this order.
\<close>

definition accessTokenTrigger :: "token list \<Rightarrow> scan_acc list" where
  "accessTokenTrigger ts = filter changed (rx_scan accumulate seed (map Some ts))"

text \<open>
  The most recent element of a finite run of a stream, if there is one: for the recorded
  tokens \<open>ts\<close>, the token recorded immediately before the next one (\<^verbatim>\<open>null\<close> when
  there is none).
\<close>

definition latest :: "'a list \<Rightarrow> 'a option" where
  "latest xs = (if xs = [] then None else Some (last xs))"

section \<open>One subscription to \<^verbatim>\<open>isAuthenticatedTrigger$\<close> (\<^verbatim>\<open>part_000\<close>, lines 62--79)\<close>

text \<open>
  \<^verbatim>\<open>isAuthenticatedTrigger$\<close> is a cold pipeline: every subscription owns the state of
  its operators.  \<open>switched\<close> records that a first \<^verbatim>\<open>false\<close> of \<^verbatim>\<open>isLoading$\<close> passed
  \<^verbatim>\<open>filter\<close> and \<^verbatim>\<open>distinctUntilChanged\<close>, so that \<^verbatim>\<open>switchMap\<close> has subscribed the
  inner \<^verbatim>\<open>merge(...)\<close>; \<open>acc\<close> is the accumulator of \<^verbatim>\<open>scan\<close>; \<open>pending\<close> lists the
  promises returned by \<^verbatim>\<open>authokClient.isAuthenticated()\<close> that have not settled.
  Promises are numbered in the order the client hands them out; the counter is threaded
  through every function that may call the client.
\<close>

record trigger =
  switched :: bool
  acc :: scan_acc
  pending :: "nat list"

definition new_trigger :: trigger where
  "new_trigger = \<lparr>switched = False, acc = seed, pending = []\<rparr>"

text \<open>\<^verbatim>\<open>this.authokClient.isAuthenticated()\<close> inside \<^verbatim>\<open>defer\<close> or \<^verbatim>\<open>mergeMap\<close>.\<close>

definition start_check :: "nat \<Rightarrow> trigger \<Rightarrow> trigger \<times> nat" where
  "start_check n tr = (tr\<lparr>pending := pending tr @ [n]\<rparr>, Suc n)"

text \<open>A token reaches \<^verbatim>\<open>scan\<close>, \<^verbatim>\<open>filter\<close> and \<^verbatim>\<open>mergeMap\<close> of this subscription.\<close>

definition on_token :: "token \<Rightarrow> nat \<Rightarrow> trigger \<Rightarrow> trigger \<times> nat" where
  "on_token t n tr =
     (let a = accumulate (acc tr) (Some t); tr' = tr\<lparr>acc := a\<rparr>
      in if changed a then start_check n tr' else (tr', n))"

text \<open>
  \<^verbatim>\<open>switchMap\<close> subscribes \<^verbatim>\<open>merge(defer(...), accessTokenTrigger$..., refresh$...)\<close>:
  the deferred check is started, then \<^verbatim>\<open>accessToken$\<close> (a \<^verbatim>\<open>ReplaySubject(1)\<close>,
  whose buffer is \<open>buf\<close>) replays its last token, then \<^verbatim>\<open>refresh$\<close> is subscribed.
\<close>

definition subscribe_merge :: "token option \<Rightarrow> nat \<Rightarrow> trigger \<Rightarrow> trigger \<times> nat" where
  "subscribe_merge buf n tr =
     (let (tr1, n1) = start_check n (tr\<lparr>switched := True\<rparr>)
      in case buf of None \<Rightarrow> (tr1, n1) | Some t \<Rightarrow> on_token t n1 tr1)"

text \<open>
  A value of \<^verbatim>\<open>isLoading$\<close> reaches \<^verbatim>\<open>filter((loading) => !loading)\<close>,
  \<^verbatim>\<open>distinctUntilChanged()\<close> and \<^verbatim>\<open>switchMap\<close>.
\<close>

definition on_loading :: "bool \<Rightarrow> token option \<Rightarrow> nat \<Rightarrow> trigger \<Rightarrow> trigger \<times> nat" where
  "on_loading loading buf n tr =
     (if loading then (tr, n)
      else if switched tr then (tr, n)
      else subscribe_merge buf n tr)"

text \<open>\<^verbatim>\<open>refresh$.next()\<close> and \<^verbatim>\<open>accessToken$.next(t)\<close>: heard only by a subscribed inner merge.\<close>

definition on_refresh :: "nat \<Rightarrow> trigger \<Rightarrow> trigger \<times> nat" where
  "on_refresh n tr = (if switched tr then start_check n tr else (tr, n))"

definition on_access_token :: "token \<Rightarrow> nat \<Rightarrow> trigger \<Rightarrow> trigger \<times> nat" where
  "on_access_token t n tr = (if switched tr then on_token t n tr else (tr, n))"

text \<open>
  A promise of \<^verbatim>\<open>isAuthenticated()\<close> settles.  \<^verbatim>\<open>merge\<close> and \<^verbatim>\<open>mergeMap\<close> pass a
  resolved value on at once, whatever else is pending; a rejection is an error
  notification, which ends the subscription (all inner subscriptions are dropped).
\<close>

definition on_check_settled ::
  "nat \<Rightarrow> error + bool \<Rightarrow> trigger \<Rightarrow> trigger \<times> bool notification option" where
  "on_check_settled p outcome tr =
     (if p \<in> set (pending tr) then
        (case outcome of
           Inr b \<Rightarrow> (tr\<lparr>pending := removeAll p (pending tr)\<rparr>, Some (Next b))
         | Inl e \<Rightarrow> (tr\<lparr>pending := []\<rparr>, Some (Failed e)))
      else (tr, None))"

section \<open>\<^verbatim>\<open>isAuthenticated$\<close> (\<^verbatim>\<open>part_000\<close>, lines 85--88)\<close>

text \<open>
  \<^verbatim>\<open>isAuthenticatedTrigger$.pipe(distinctUntilChanged(), shareReplay(1))\<close>.
  \<^verbatim>\<open>shareReplay\<close> subscribes its source once, for the first observer, and keeps a
  \<^verbatim>\<open>ReplaySubject(1)\<close> for all observers.  An observer is described by what it has
  received: its values, and the error that ended it, if any.  \<open>source\<close> is the one
  subscription to the trigger, \<open>last_value\<close> the memory of \<^verbatim>\<open>distinctUntilChanged\<close>,
  \<open>replay\<close> the buffer of the replay subject.  On an error notification
  \<^verbatim>\<open>shareReplay\<close> passes the error to its observers and forgets subject and source, so
  that the next observer subscribes the source anew.
\<close>

record observer =
  received :: "bool list"
  failure :: "error option"

record shared =
  source :: "trigger option"
  last_value :: "bool option"
  replay :: "bool option"
  observers :: "observer list"

definition new_shared :: shared where
  "new_shared = \<lparr>source = None, last_value = None, replay = None, observers = []\<rparr>"

definition live :: "observer \<Rightarrow> bool" where
  "live ob = (failure ob = None)"

definition deliver :: "bool \<Rightarrow> observer \<Rightarrow> observer" where
  "deliver b ob = (if live ob then ob\<lparr>received := received ob @ [b]\<rparr> else ob)"

definition terminate :: "error \<Rightarrow> observer \<Rightarrow> observer" where
  "terminate e ob = (if live ob then ob\<lparr>failure := Some e\<rparr> else ob)"

definition shared_notify :: "bool notification option \<Rightarrow> shared \<Rightarrow> shared" where
  "shared_notify nt sh =
     (case nt of
        None \<Rightarrow> sh
      | Some (Next b) \<Rightarrow>
          if last_value sh = Some b then sh
          else sh\<lparr>last_value := Some b, replay := Some b,
                  observers := map (deliver b) (observers sh)\<rparr>
      | Some (Failed e) \<Rightarrow>
          sh\<lparr>source := None, last_value := None, replay := None,
              observers := map (terminate e) (observers sh)\<rparr>)"

definition shared_check_settled :: "nat \<Rightarrow> error + bool \<Rightarrow> shared \<Rightarrow> shared" where
  "shared_check_settled p outcome sh =
     (case source sh of
        None \<Rightarrow> sh
      | Some tr \<Rightarrow>
          (let (tr', nt) = on_check_settled p outcome tr
           in shared_notify nt (sh\<lparr>source := Some tr'\<rparr>)))"

text \<open>An event of one of the subjects reaches the source subscription, if there is one.\<close>

definition shared_apply ::
  "(nat \<Rightarrow> trigger \<Rightarrow> trigger \<times> nat) \<Rightarrow> nat \<Rightarrow> shared \<Rightarrow> shared \<times> nat" where
  "shared_apply f n sh =
     (case source sh of
        None \<Rightarrow> (sh, n)
      | Some tr \<Rightarrow> (let (tr', n') = f n tr in (sh\<lparr>source := Some tr'\<rparr>, n')))"

text \<open>
  A new observer.  With a running source it receives the replay buffer at once.  Without
  one, the source is subscribed: \<^verbatim>\<open>isLoading$\<close> (a \<^verbatim>\<open>BehaviorSubject\<close>) hands its
  current value \<open>loading\<close> to the new trigger subscription.
\<close>

definition shared_subscribe ::
  "bool \<Rightarrow> token option \<Rightarrow> nat \<Rightarrow> shared \<Rightarrow> shared \<times> nat" where
  "shared_subscribe loading buf n sh =
     (case source sh of
        Some tr \<Rightarrow>
          (sh\<lparr>observers := observers sh @
                [\<lparr>received = (case replay sh of None \<Rightarrow> [] | Some b \<Rightarrow> [b]),
                  failure = None\<rparr>]\<rparr>, n)
      | None \<Rightarrow>
          (let (tr, n') = on_loading loading buf n new_trigger
           in (sh\<lparr>source := Some tr, last_value := None, replay := None,
                   observers := observers sh @ [\<lparr>received = [], failure = None\<rparr>]\<rparr>, n')))"

section \<open>\<^verbatim>\<open>user$\<close> and \<^verbatim>\<open>idTokenClaims$\<close> (\<^verbatim>\<open>part_000\<close>, lines 93--106)\<close>

text \<open>
  \<^verbatim>\<open>isAuthenticatedTrigger$.pipe(concatMap((authenticated) =>
  authenticated ? this.authokClient.getUser() : of(null)))\<close>, and the same with
  \<^verbatim>\<open>getIdTokenClaims()\<close>.  Neither stream is shared: every subscriber owns a
  subscription to the trigger (\<open>trig\<close>) and a \<^verbatim>\<open>concatMap\<close>.  \<open>results\<close> are the values
  the trigger has emitted to this subscriber's \<^verbatim>\<open>concatMap\<close>; \<open>buffer\<close> holds those
  waiting for the active inner observable, \<open>active\<close> the pending promise of the accessor,
  \<open>seen\<close> what the subscriber has received, \<open>ended\<close> the error that closed it.
\<close>

datatype accessor = GetUser | GetIdTokenClaims

record derived =
  accessor :: accessor
  trig :: trigger
  results :: "bool list"
  buffer :: "bool list"
  active :: "nat option"
  seen :: "derived_value list"
  ended :: "error option"

text \<open>
  \<^verbatim>\<open>concatMap\<close> takes the waiting values in order: \<^verbatim>\<open>of(null)\<close> emits and completes
  at once, the accessor's promise (numbered \<open>n\<close>) stays active until it settles.
\<close>

fun concat_drain :: "bool list \<Rightarrow> nat \<Rightarrow> derived \<Rightarrow> derived \<times> nat" where
  "concat_drain [] n d = (d\<lparr>buffer := [], active := None\<rparr>, n)"
| "concat_drain (b # bs) n d =
     (if b then (d\<lparr>buffer := bs, active := Some n\<rparr>, Suc n)
      else concat_drain bs n (d\<lparr>seen := seen d @ [Null]\<rparr>))"

definition derived_next :: "bool \<Rightarrow> nat \<Rightarrow> derived \<Rightarrow> derived \<times> nat" where
  "derived_next b n d =
     (let d1 = d\<lparr>results := results d @ [b]\<rparr>
      in case active d1 of
           Some p \<Rightarrow> (d1\<lparr>buffer := buffer d1 @ [b]\<rparr>, n)
         | None \<Rightarrow> concat_drain (b # buffer d1) n d1)"

definition derived_notify ::
  "bool notification option \<Rightarrow> nat \<Rightarrow> derived \<Rightarrow> derived \<times> nat" where
  "derived_notify nt n d =
     (case nt of
        None \<Rightarrow> (d, n)
      | Some (Next b) \<Rightarrow> derived_next b n d
      | Some (Failed e) \<Rightarrow> (d\<lparr>ended := Some e\<rparr>, n))"

definition derived_check_settled ::
  "nat \<Rightarrow> error + bool \<Rightarrow> nat \<Rightarrow> derived \<Rightarrow> derived \<times> nat" where
  "derived_check_settled p outcome n d =
     (if ended d = None then
        (let (tr, nt) = on_check_settled p outcome (trig d)
         in derived_notify nt n (d\<lparr>trig := tr\<rparr>))
      else (d, n))"

definition derived_accessor_settled ::
  "nat \<Rightarrow> error + profile option \<Rightarrow> nat \<Rightarrow> derived \<Rightarrow> derived \<times> nat" where
  "derived_accessor_settled p outcome n d =
     (if ended d = None \<and> active d = Some p then
        (case outcome of
           Inr v \<Rightarrow> concat_drain (buffer d) n (d\<lparr>seen := seen d @ [FromClient v]\<rparr>)
         | Inl e \<Rightarrow> (d\<lparr>ended := Some e\<rparr>, n))
      else (d, n))"

definition derived_apply ::
  "(nat \<Rightarrow> trigger \<Rightarrow> trigger \<times> nat) \<Rightarrow> nat \<Rightarrow> derived \<Rightarrow> derived \<times> nat" where
  "derived_apply f n d =
     (if ended d = None then (let (tr, n') = f n (trig d) in (d\<lparr>trig := tr\<rparr>, n'))
      else (d, n))"

definition derived_subscribe ::
  "accessor \<Rightarrow> bool \<Rightarrow> token option \<Rightarrow> nat \<Rightarrow> derived \<times> nat" where
  "derived_subscribe a loading buf n =
     (let (tr, n') = on_loading loading buf n new_trigger
      in (\<lparr>accessor = a, trig = tr, results = [], buffer = [], active = None,
           seen = [], ended = None\<rparr>, n'))"

text \<open>The subscribers of a subject are notified one after the other.\<close>

fun thread :: "(nat \<Rightarrow> 'a \<Rightarrow> 'a \<times> nat) \<Rightarrow> nat \<Rightarrow> 'a list \<Rightarrow> 'a list \<times> nat" where
  "thread f n [] = ([], n)"
| "thread f n (x # xs) =
     (let (x', n1) = f n x; (xs', n2) = thread f n1 xs in (x' # xs', n2))"

section \<open>The class \<^verbatim>\<open>AuthState\<close> (\<^verbatim>\<open>part_000\<close>)\<close>

text \<open>
  \<open>isLoading\<close> is the value of the \<^verbatim>\<open>BehaviorSubject\<close> \<^verbatim>\<open>isLoadingSubject$\<close> (initially
  \<^verbatim>\<open>true\<close>), \<open>accessToken\<close> and \<open>errorSubject\<close> the buffers of the \<^verbatim>\<open>ReplaySubject(1)\<close>s
  \<^verbatim>\<open>accessToken$\<close> and \<^verbatim>\<open>errorSubject$\<close>; \<^verbatim>\<open>refresh$\<close> is a plain \<^verbatim>\<open>Subject\<close> and keeps
  nothing.  \<open>loadingObservers\<close> are the subscribers of \<^verbatim>\<open>isLoading$\<close>, each with the
  values it has received.  \<open>calls\<close> counts the promises the client has handed out.
  Subscribers never unsubscribe in this model.
\<close>

record auth_state =
  isLoading :: bool
  accessToken :: "token option"
  errorSubject :: "error option"
  loadingObservers :: "bool list list"
  isAuthenticated :: shared
  deriveds :: "derived list"
  calls :: nat

definition initial :: auth_state where
  "initial = \<lparr>isLoading = True, accessToken = None, errorSubject = None,
     loadingObservers = [], isAuthenticated = new_shared, deriveds = [], calls = 0\<rparr>"

text \<open>
  Every subscription to the trigger hears an event of a subject: here the source of
  \<^verbatim>\<open>isAuthenticated$\<close> first, then the subscribers of the derived streams.  The order
  decides only how the promises they start are numbered.
\<close>

definition broadcast ::
  "(nat \<Rightarrow> trigger \<Rightarrow> trigger \<times> nat) \<Rightarrow> auth_state \<Rightarrow> auth_state" where
  "broadcast f s =
     (let (sh, n1) = shared_apply f (calls s) (isAuthenticated s);
          (ds, n2) = thread (derived_apply f) n1 (deriveds s)
      in s\<lparr>isAuthenticated := sh, deriveds := ds, calls := n2\<rparr>)"

text \<open>The four mutators (lines 119--145).\<close>

definition setIsLoading :: "bool \<Rightarrow> auth_state \<Rightarrow> auth_state" where
  "setIsLoading b s =
     broadcast (on_loading b (accessToken s))
       (s\<lparr>isLoading := b, loadingObservers := map (\<lambda>vs. vs @ [b]) (loadingObservers s)\<rparr>)"

definition refresh :: "auth_state \<Rightarrow> auth_state" where
  "refresh s = broadcast on_refresh s"

definition setAccessToken :: "token \<Rightarrow> auth_state \<Rightarrow> auth_state" where
  "setAccessToken t s = broadcast (on_access_token t) (s\<lparr>accessToken := Some t\<rparr>)"

definition setError :: "error \<Rightarrow> auth_state \<Rightarrow> auth_state" where
  "setError e s = s\<lparr>errorSubject := Some e\<rparr>"

text \<open>Subscriptions to the public streams.\<close>

definition subscribe_isLoading :: "auth_state \<Rightarrow> auth_state" where
  "subscribe_isLoading s = s\<lparr>loadingObservers := loadingObservers s @ [[isLoading s]]\<rparr>"

definition subscribe_isAuthenticated :: "auth_state \<Rightarrow> auth_state" where
  "subscribe_isAuthenticated s =
     (let (sh, n) = shared_subscribe (isLoading s) (accessToken s) (calls s) (isAuthenticated s)
      in s\<lparr>isAuthenticated := sh, calls := n\<rparr>)"

definition subscribe_derived :: "accessor \<Rightarrow> auth_state \<Rightarrow> auth_state" where
  "subscribe_derived a s =
     (let (d, n) = derived_subscribe a (isLoading s) (accessToken s) (calls s)
      in s\<lparr>deriveds := deriveds s @ [d], calls := n\<rparr>)"

text \<open>Promises of the client settle.\<close>

definition check_settled :: "nat \<Rightarrow> error + bool \<Rightarrow> auth_state \<Rightarrow> auth_state" where
  "check_settled p outcome s =
     (let (ds, n) = thread (derived_check_settled p outcome) (calls s) (deriveds s)
      in s\<lparr>isAuthenticated := shared_check_settled p outcome (isAuthenticated s),
           deriveds := ds, calls := n\<rparr>)"

definition accessor_settled ::
  "nat \<Rightarrow> error + profile option \<Rightarrow> auth_state \<Rightarrow> auth_state" where
  "accessor_settled p outcome s =
     (let (ds, n) = thread (derived_accessor_settled p outcome) (calls s) (deriveds s)
      in s\<lparr>deriveds := ds, calls := n\<rparr>)"

text \<open>
  Everything that can happen to an \<^verbatim>\<open>AuthState\<close>: a mutator is called, a stream is
  subscribed, or a promise of the client settles (with the outcome the client chose).
\<close>

datatype event =
    SetIsLoading bool
  | Refresh
  | SetAccessToken token
  | SetError error
  | SubscribeIsLoading
  | SubscribeIsAuthenticated
  | SubscribeDerived accessor
  | CheckSettled nat "error + bool"
  | AccessorSettled nat "error + profile option"

fun step :: "event \<Rightarrow> auth_state \<Rightarrow> auth_state" where
  "step (SetIsLoading b) s = setIsLoading b s"
| "step Refresh s = refresh s"
| "step (SetAccessToken t) s = setAccessToken t s"
| "step (SetError e) s = setError e s"
| "step SubscribeIsLoading s = subscribe_isLoading s"
| "step SubscribeIsAuthenticated s = subscribe_isAuthenticated s"
| "step (SubscribeDerived a) s = subscribe_derived a s"
| "step (CheckSettled p outcome) s = check_settled p outcome s"
| "step (AccessorSettled p outcome) s = accessor_settled p outcome s"

definition run :: "event list \<Rightarrow> auth_state" where
  "run evs = fold step evs initial"

section \<open>The facade and the redirect-callback coordinator\<close>

text \<open>
  The class \<^verbatim>\<open>AuthService\<close> (\<^verbatim>\<open>auth.service.ts\<close>) and the configuration type
  (\<^verbatim>\<open>auth.config.ts\<close>) are not among the sources; only the tests of the service
  (\<^verbatim>\<open>auth.service.spec.ts\<close>) are.  The definitions of this section follow the
  specification (sections 4.2, 5 and 6) and act on the \<^verbatim>\<open>AuthState\<close> above through its
  mutators only.
\<close>

text \<open>
  Modelled from the spec: the configuration read by \<^verbatim>\<open>AuthService\<close>, whose type
  \<^verbatim>\<open>AuthConfig\<close> is missing: ``an optional error-redirect path, a flag to skip automatic
  redirect-callback processing''.
\<close>

record config =
  skipRedirectCallback :: bool
  errorPath :: "string option"

text \<open>
  Modelled from the spec: the current location read by \<^verbatim>\<open>AuthService\<close>, which is
  missing, as the query parameters it carries.
\<close>

type_synonym location = "(string \<times> string) list"

text \<open>
  Modelled from the spec: the result type of the callback exchange used by
  \<^verbatim>\<open>AuthService\<close>, which is missing.  The preserved application state is an
  ``arbitrary caller-supplied payload'' that may carry a target path.
\<close>

record app_state =
  target :: "string option"
  payload :: string

text \<open>
  Modelled from the spec: the options of \<^verbatim>\<open>AuthService.logout\<close>, which is missing
  (the tests pass \<^verbatim>\<open>localOnly\<close> and \<^verbatim>\<open>returnTo\<close>).
\<close>

record logout_options =
  localOnly :: bool
  returnTo :: "string option"

text \<open>
  Modelled from the spec: the state machine of the coordinator of \<^verbatim>\<open>AuthService\<close>,
  which is missing.  ``\<^verbatim>\<open>{Init} -> {ProcessingCallback} -> {Loaded}\<close>;
  \<^verbatim>\<open>{Init} -> {CheckingSession} -> {Loaded}\<close>.''
\<close>

datatype phase = Init | ProcessingCallback | CheckingSession | Loaded

text \<open>
  Modelled from the spec: an instance of \<^verbatim>\<open>AuthService\<close>, which is missing.  It owns
  its \<^verbatim>\<open>AuthState\<close>, its configuration, the phase of its startup, whether it has been
  destroyed, the replay channel of the application state, and what it has asked of its
  collaborators: the paths given to the navigator, and the numbers of calls of the
  client's \<^verbatim>\<open>handleRedirectCallback\<close>, \<^verbatim>\<open>checkSession\<close> and network logout.
\<close>

record service =
  authState :: auth_state
  cfg :: config
  phase :: phase
  destroyed :: bool
  navigations :: "string list"
  callbackCalls :: nat
  sessionChecks :: nat
  networkLogouts :: nat
  appState :: "app_state option"

text \<open>
  Modelled from the spec: the construction of \<^verbatim>\<open>AuthService\<close>, which is missing,
  before its startup runs.
\<close>

definition new_service :: "config \<Rightarrow> service" where
  "new_service c = \<lparr>authState = initial, cfg = c, phase = Init, destroyed = False,
     navigations = [], callbackCalls = 0, sessionChecks = 0, networkLogouts = 0,
     appState = None\<rparr>"

text \<open>
  Modelled from the spec: the URL contract for redirect detection of
  \<^verbatim>\<open>AuthService\<close>, which is missing.  ``Presence of \<^verbatim>\<open>code\<close> and \<^verbatim>\<open>state\<close> query
  parameters, OR \<^verbatim>\<open>error\<close> and \<^verbatim>\<open>state\<close> query parameters, on the current location,
  signals a pending callback.''
\<close>

definition has_param :: "string \<Rightarrow> location \<Rightarrow> bool" where
  "has_param k loc = (k \<in> set (map fst loc))"

text \<open>
  Modelled from the spec: the redirect detection of \<^verbatim>\<open>AuthService\<close>, which is
  missing, on the parameters of the location.
\<close>

definition pending_callback :: "location \<Rightarrow> bool" where
  "pending_callback loc =
     ((has_param ''code'' loc \<and> has_param ''state'' loc)
      \<or> (has_param ''error'' loc \<and> has_param ''state'' loc))"

text \<open>
  Modelled from the spec: step 4 of the coordinator of \<^verbatim>\<open>AuthService\<close>, which is
  missing.  ``Navigate: to the target path from the preserved application-state payload
  if present, else to a configured error path if a failure occurred and one is
  configured, else to the application root path (\<^verbatim>\<open>/\<close>).''  The outcome of the callback
  exchange is the thrown error or the optional application state.
\<close>

definition navigation_target :: "config \<Rightarrow> error + app_state option \<Rightarrow> string" where
  "navigation_target c outcome =
     (case (case outcome of Inr (Some app) \<Rightarrow> target app | _ \<Rightarrow> None) of
        Some path \<Rightarrow> path
      | None \<Rightarrow>
          (case outcome of
             Inl e \<Rightarrow> (case errorPath c of Some path \<Rightarrow> path | None \<Rightarrow> ''/'')
           | Inr r \<Rightarrow> ''/''))"

text \<open>
  Modelled from the spec: steps 1 to 3 of the coordinator of \<^verbatim>\<open>AuthService\<close>, which is
  missing.  At startup the redirect-callback exchange is invoked (once) when the
  location signals a pending callback and processing is not skipped by configuration;
  otherwise the silent session check is.
\<close>

definition startup :: "location \<Rightarrow> service \<Rightarrow> service" where
  "startup loc sv =
     (if phase sv \<noteq> Init then sv
      else if pending_callback loc \<and> \<not> skipRedirectCallback (cfg sv)
        then sv\<lparr>phase := ProcessingCallback, callbackCalls := Suc (callbackCalls sv)\<rparr>
        else sv\<lparr>phase := CheckingSession, sessionChecks := Suc (sessionChecks sv)\<rparr>)"

text \<open>
  Modelled from the spec: step 5 of the coordinator of \<^verbatim>\<open>AuthService\<close>, which is
  missing.  The loading flag becomes false once the sequence has resolved; an instance
  torn down before that suppresses this side effect (``checking liveness/cancellation
  before emitting loading=false'').
\<close>

definition finish_loading :: "service \<Rightarrow> service" where
  "finish_loading sv =
     sv\<lparr>phase := Loaded,
        authState := (if destroyed sv then authState sv
                      else setIsLoading False (authState sv))\<rparr>"

text \<open>
  Modelled from the spec: steps 3 and 4 of the coordinator of \<^verbatim>\<open>AuthService\<close>, which
  is missing.  ``On success, extract an optional preserved application-state payload; on
  failure, capture the thrown error into the error channel but still proceed to the
  navigation step.''
\<close>

definition handle_callback_outcome :: "error + app_state option \<Rightarrow> service \<Rightarrow> service" where
  "handle_callback_outcome outcome sv =
     (let sv1 = (case outcome of
                   Inl e \<Rightarrow> sv\<lparr>authState := setError e (authState sv)\<rparr>
                 | Inr None \<Rightarrow> sv
                 | Inr (Some app) \<Rightarrow> sv\<lparr>appState := Some app\<rparr>)
      in sv1\<lparr>navigations := navigations sv1 @ [navigation_target (cfg sv) outcome]\<rparr>)"

text \<open>
  Modelled from the spec: the end of the callback run of \<^verbatim>\<open>AuthService\<close>, which is
  missing.  The promise of the exchange settles; steps 3 to 5 follow, once.
\<close>

definition callback_settled :: "error + app_state option \<Rightarrow> service \<Rightarrow> service" where
  "callback_settled outcome sv =
     (if phase sv = ProcessingCallback
      then finish_loading (handle_callback_outcome outcome sv) else sv)"

text \<open>
  Modelled from the spec: the end of the silent session check of \<^verbatim>\<open>AuthService\<close>,
  which is missing.  The promise of \<^verbatim>\<open>checkSession\<close> resolves; step 5 follows, once.
\<close>

definition session_checked :: "service \<Rightarrow> service" where
  "session_checked sv = (if phase sv = CheckingSession then finish_loading sv else sv)"

text \<open>
  Modelled from the spec: the teardown of an instance of \<^verbatim>\<open>AuthService\<close> (its
  \<^verbatim>\<open>ngOnDestroy\<close>), which is missing.
\<close>

definition destroy :: "service \<Rightarrow> service" where
  "destroy sv = sv\<lparr>destroyed := True\<rparr>"

text \<open>
  Modelled from the spec: \<^verbatim>\<open>AuthService.logout\<close>, which is missing.  The facade
  ``delegates to the external client and updates AuthStateCore as a side effect''; with
  \<^verbatim>\<open>localOnly\<close> it ``does not call the external client's network logout''.  The
  \<^verbatim>\<open>AuthState\<close> of \<^verbatim>\<open>part_000\<close> has four mutators and none of them writes the
  authentication flag, so the reset of the flag is the re-evaluation \<^verbatim>\<open>refresh()\<close>;
  the tests of \<^verbatim>\<open>auth.service.spec.ts\<close> (lines 223--243 and 298--321) set the client's
  answer to \<^verbatim>\<open>false\<close> before they call \<^verbatim>\<open>logout({localOnly: true})\<close>.
\<close>

definition logout :: "logout_options \<Rightarrow> service \<Rightarrow> service" where
  "logout opts sv =
     (if localOnly opts then sv\<lparr>authState := refresh (authState sv)\<rparr>
      else sv\<lparr>networkLogouts := Suc (networkLogouts sv)\<rparr>)"

text \<open>
  Modelled from the spec: what happens to an instance of \<^verbatim>\<open>AuthService\<close>, which is
  missing: its startup, the settlement of the startup's promise, its destruction, a
  logout, or an event of its \<^verbatim>\<open>AuthState\<close>.
\<close>

datatype service_event =
    Startup location
  | CallbackSettled "error + app_state option"
  | SessionChecked
  | Destroy
  | Logout logout_options
  | OnState event

text \<open>
  Modelled from the spec: one event of an instance of \<^verbatim>\<open>AuthService\<close>, which is
  missing.
\<close>

fun service_step :: "service_event \<Rightarrow> service \<Rightarrow> service" where
  "service_step (Startup loc) sv = startup loc sv"
| "service_step (CallbackSettled outcome) sv = callback_settled outcome sv"
| "service_step SessionChecked sv = session_checked sv"
| "service_step Destroy sv = destroy sv"
| "service_step (Logout opts) sv = logout opts sv"
| "service_step (OnState ev) sv = sv\<lparr>authState := step ev (authState sv)\<rparr>"


section \<open>Invariants of the streams\<close>

text \<open>
  What holds of \<^verbatim>\<open>isAuthenticated$\<close> after every event: no observer has received two
  equal values in a row; every observer that has not been ended holds the value of the
  replay buffer as its most recent one; the buffer is the memory of
  \<^verbatim>\<open>distinctUntilChanged\<close>; without a source the buffer is empty and no observer is
  left.
\<close>

definition shared_inv :: "shared \<Rightarrow> bool" where
  "shared_inv sh =
     (list_all (\<lambda>ob. distinct_adj (received ob)) (observers sh)
      \<and> list_all (\<lambda>ob. live ob \<longrightarrow> latest (received ob) = replay sh) (observers sh)
      \<and> replay sh = last_value sh
      \<and> (source sh = None \<longrightarrow> replay sh = None \<and> list_all (\<lambda>ob. \<not> live ob) (observers sh)))"

text \<open>
  What holds of a subscriber of \<^verbatim>\<open>user$\<close> or \<^verbatim>\<open>idTokenClaims$\<close> after every event:
  the results of its trigger are accounted for, in order, by the values it has received
  (\<^verbatim>\<open>null\<close> for \<^verbatim>\<open>false\<close>), the active call of the accessor (for a \<^verbatim>\<open>true\<close>) and the
  buffer of \<^verbatim>\<open>concatMap\<close>.
\<close>

definition derived_inv :: "derived \<Rightarrow> bool" where
  "derived_inv d =
     (results d = map (\<lambda>v. v \<noteq> Null) (seen d)
        @ (case active d of None \<Rightarrow> [] | Some p \<Rightarrow> [True]) @ buffer d
      \<and> (active d = None \<longrightarrow> buffer d = []))"

text \<open>
  The flag an observer of \<^verbatim>\<open>isAuthenticated$\<close> holds and the value a subscriber of
  \<^verbatim>\<open>user$\<close> or \<^verbatim>\<open>idTokenClaims$\<close> holds agree when the value is \<^verbatim>\<open>null\<close> exactly for
  the flag \<^verbatim>\<open>false\<close>; a state is consistent when all of them agree.
\<close>

fun agree :: "bool option \<Rightarrow> derived_value option \<Rightarrow> bool" where
  "agree (Some b) (Some v) = ((v = Null) = (\<not> b))"
| "agree b v = True"

definition consistent :: "auth_state \<Rightarrow> bool" where
  "consistent s =
     list_all (\<lambda>ob. list_all (\<lambda>d. agree (latest (received ob)) (latest (seen d))) (deriveds s))
       (filter live (observers (isAuthenticated s)))"

text \<open>
  Before \<^verbatim>\<open>isLoading$\<close> has emitted \<^verbatim>\<open>false\<close>: the flag is still set, the source of
  \<^verbatim>\<open>isAuthenticated$\<close> (if subscribed) has not switched to its inner merge, and nothing
  has been emitted.
\<close>

definition idle :: "auth_state \<Rightarrow> bool" where
  "idle s =
     (isLoading s
      \<and> (source (isAuthenticated s) = None \<or> source (isAuthenticated s) = Some new_trigger)
      \<and> replay (isAuthenticated s) = None
      \<and> list_all (\<lambda>ob. received ob = []) (observers (isAuthenticated s)))"




text \<open>
  Modelled from the spec: an instance of \<^verbatim>\<open>AuthService\<close>, which is missing, from its
  construction on.
\<close>

definition service_run :: "config \<Rightarrow> service_event list \<Rightarrow> service" where
  "service_run c evs = fold service_step evs (new_service c)"

text \<open>
  Modelled from the spec: the event that settles the redirect-callback exchange of
  \<^verbatim>\<open>AuthService\<close>, which is missing.
\<close>

fun settles :: "service_event \<Rightarrow> bool" where
  "settles (CallbackSettled outcome) = True"
| "settles ev = False"



section \<open>Single events\<close>


lemmas trigger_defs = on_loading_def on_refresh_def on_access_token_def on_token_def
  subscribe_merge_def start_check_def on_check_settled_def accumulate_def changed_def seed_def new_trigger_def

lemma thread_all:
  assumes "\<And>n x. P x \<Longrightarrow> P (fst (f n x))"
  shows "list_all P xs \<Longrightarrow> list_all P (fst (thread f n xs))"
  by (induction xs arbitrary: n) (simp_all add: split_beta assms)

lemma run_snoc: "run (evs @ [ev]) = step ev (run evs)"
  by (simp add: run_def)

lemma broadcast_fields:
  "isLoading (broadcast f s) = isLoading s"
  "accessToken (broadcast f s) = accessToken s"
  "errorSubject (broadcast f s) = errorSubject s"
  "loadingObservers (broadcast f s) = loadingObservers s"
  by (simp_all add: broadcast_def split_beta)

lemma broadcast_shared:
  "isAuthenticated (broadcast f s) = fst (shared_apply f (calls s) (isAuthenticated s))"
  by (simp add: broadcast_def split_beta)



lemma check_settled_shared:
  "isAuthenticated (check_settled p outcome s) = shared_check_settled p outcome (isAuthenticated s)"
  by (simp add: check_settled_def split_beta)



lemma terminate_received: "received (terminate e ob) = received ob"
  by (simp add: terminate_def)




lemma setIsLoading_fields:
  "isLoading (setIsLoading b s) = b"
  "loadingObservers (setIsLoading b s) = map (\<lambda>vs. vs @ [b]) (loadingObservers s)"
  "errorSubject (setIsLoading b s) = errorSubject s"
  by (simp_all add: setIsLoading_def broadcast_fields)


section \<open>The invariants hold after every event\<close>

lemma shared_inv_new: "shared_inv new_shared"
  by (simp add: shared_inv_def new_shared_def)

lemma distinct_adj_snoc:
  "distinct_adj xs \<Longrightarrow> latest xs \<noteq> Some b \<Longrightarrow> distinct_adj (xs @ [b])"
  by (cases xs rule: rev_cases) (auto simp: latest_def distinct_adj_append_iff)

lemma shared_notify_inv:
  assumes "shared_inv sh" "source sh \<noteq> None"
  shows "shared_inv (shared_notify nt sh)"
proof (cases nt)
  case None
  with assms show ?thesis by (simp add: shared_notify_def)
next
  case (Some a)
  show ?thesis
  proof (cases a)
    case (Next b)
    with Some assms show ?thesis
      by (auto simp: shared_notify_def shared_inv_def list_all_iff deliver_def latest_def
          intro!: distinct_adj_snoc)
  next
    case (Failed e)
    with Some assms show ?thesis
      by (auto simp: shared_notify_def shared_inv_def list_all_iff terminate_def live_def)
  qed
qed

lemma shared_inv_source_update:
  "shared_inv sh \<Longrightarrow> source sh \<noteq> None \<Longrightarrow> shared_inv (sh\<lparr>source := Some tr\<rparr>)"
  by (auto simp: shared_inv_def)

lemma shared_check_settled_inv:
  "shared_inv sh \<Longrightarrow> shared_inv (shared_check_settled p outcome sh)"
  by (auto simp: shared_check_settled_def split: option.splits prod.splits
      intro!: shared_notify_inv shared_inv_source_update)

lemma shared_apply_inv:
  "shared_inv sh \<Longrightarrow> shared_inv (fst (shared_apply f n sh))"
  by (auto simp: shared_apply_def split: option.splits prod.splits
      intro!: shared_inv_source_update)

lemma shared_subscribe_inv:
  "shared_inv sh \<Longrightarrow> shared_inv (fst (shared_subscribe loading buf n sh))"
  by (auto simp: shared_subscribe_def shared_inv_def list_all_iff live_def latest_def
      split: option.splits prod.splits)

lemma step_shared_inv:
  "shared_inv (isAuthenticated s) \<Longrightarrow> shared_inv (isAuthenticated (step ev s))"
  by (cases ev)
    (simp_all add: setIsLoading_def refresh_def setAccessToken_def setError_def broadcast_def
      subscribe_isLoading_def subscribe_isAuthenticated_def subscribe_derived_def
      check_settled_def accessor_settled_def split_beta
      shared_apply_inv shared_subscribe_inv shared_check_settled_inv)

lemma run_shared_inv: "shared_inv (isAuthenticated (run evs))"
proof (induction evs rule: rev_induct)
  case Nil
  show ?case by (simp add: run_def initial_def shared_inv_new)
next
  case (snoc ev evs)
  then show ?case by (simp add: run_snoc step_shared_inv)
qed

lemma concat_drain_inv:
  "results d = map (\<lambda>v. v \<noteq> Null) (seen d) @ bs \<Longrightarrow> derived_inv (fst (concat_drain bs n d))"
  by (induction bs n d rule: concat_drain.induct) (simp_all add: derived_inv_def)

lemma derived_next_inv: "derived_inv d \<Longrightarrow> derived_inv (fst (derived_next b n d))"
proof (cases "active d")
  case None
  assume "derived_inv d"
  with None have "results (d\<lparr>results := results d @ [b]\<rparr>) =
      map (\<lambda>v. v \<noteq> Null) (seen (d\<lparr>results := results d @ [b]\<rparr>)) @ (b # buffer d)"
    by (simp add: derived_inv_def)
  then have "derived_inv (fst (concat_drain (b # buffer d) n (d\<lparr>results := results d @ [b]\<rparr>)))"
    by (rule concat_drain_inv)
  with None show ?thesis by (simp add: derived_next_def Let_def del: concat_drain.simps)
next
  case (Some p)
  assume "derived_inv d"
  with Some show ?thesis by (simp add: derived_next_def derived_inv_def Let_def)
qed

lemma derived_inv_trig: "derived_inv (d\<lparr>trig := tr\<rparr>) = derived_inv d"
  by (simp add: derived_inv_def)

lemma derived_inv_ended: "derived_inv (d\<lparr>ended := e\<rparr>) = derived_inv d"
  by (simp add: derived_inv_def)

lemma derived_notify_inv: "derived_inv d \<Longrightarrow> derived_inv (fst (derived_notify nt n d))"
  by (simp add: derived_notify_def derived_next_inv derived_inv_ended
      split: option.splits notification.splits)

lemma derived_check_settled_inv:
  "derived_inv d \<Longrightarrow> derived_inv (fst (derived_check_settled p outcome n d))"
  by (simp add: derived_check_settled_def split_beta derived_notify_inv derived_inv_trig)

lemma derived_accessor_settled_inv:
  assumes "derived_inv d"
  shows "derived_inv (fst (derived_accessor_settled p outcome n d))"
proof (cases "ended d = None \<and> active d = Some p")
  case False
  with assms show ?thesis by (auto simp: derived_accessor_settled_def)
next
  case True
  show ?thesis
  proof (cases outcome)
    case (Inl e)
    with True assms show ?thesis
      by (simp add: derived_accessor_settled_def derived_inv_ended)
  next
    case (Inr v)
    from True assms have "results (d\<lparr>seen := seen d @ [FromClient v]\<rparr>) =
        map (\<lambda>v. v \<noteq> Null) (seen (d\<lparr>seen := seen d @ [FromClient v]\<rparr>)) @ buffer d"
      by (simp add: derived_inv_def)
    then have "derived_inv (fst (concat_drain (buffer d) n (d\<lparr>seen := seen d @ [FromClient v]\<rparr>)))"
      by (rule concat_drain_inv)
    with True Inr show ?thesis by (simp add: derived_accessor_settled_def)
  qed
qed

lemma derived_apply_inv: "derived_inv d \<Longrightarrow> derived_inv (fst (derived_apply f n d))"
  by (simp add: derived_apply_def split_beta derived_inv_trig)

lemma derived_subscribe_inv: "derived_inv (fst (derived_subscribe a loading buf n))"
  by (simp add: derived_subscribe_def split_beta derived_inv_def)

lemma step_derived_inv:
  "list_all derived_inv (deriveds s) \<Longrightarrow> list_all derived_inv (deriveds (step ev s))"
  by (cases ev)
    (simp_all add: setIsLoading_def refresh_def setAccessToken_def setError_def broadcast_def
      subscribe_isLoading_def subscribe_isAuthenticated_def subscribe_derived_def
      check_settled_def accessor_settled_def split_beta
      thread_all derived_apply_inv derived_check_settled_inv derived_accessor_settled_inv
      derived_subscribe_inv)

lemma run_derived_inv: "list_all derived_inv (deriveds (run evs))"
proof (induction evs rule: rev_induct)
  case Nil
  show ?case by (simp add: run_def initial_def)
next
  case (snoc ev evs)
  then show ?case by (simp add: run_snoc step_derived_inv)
qed

lemma idle_initial: "idle initial"
  by (simp add: idle_def initial_def new_shared_def)

lemma idle_step:
  assumes "idle s" "ev \<noteq> SetIsLoading False"
  shows "idle (step ev s)"
proof (cases ev)
  case (SetIsLoading b)
  with assms show ?thesis
    by (auto simp: idle_def setIsLoading_def broadcast_def shared_apply_def split_beta
        on_loading_def)
next
  case Refresh
  with assms show ?thesis
    by (auto simp: idle_def refresh_def broadcast_def shared_apply_def split_beta
        on_refresh_def new_trigger_def)
next
  case (SetAccessToken t)
  with assms show ?thesis
    by (auto simp: idle_def setAccessToken_def broadcast_def shared_apply_def split_beta
        on_access_token_def new_trigger_def)
next
  case (SetError e)
  with assms show ?thesis by (simp add: idle_def setError_def)
next
  case SubscribeIsLoading
  with assms show ?thesis by (simp add: idle_def subscribe_isLoading_def)
next
  case SubscribeIsAuthenticated
  with assms show ?thesis
    by (auto simp: idle_def subscribe_isAuthenticated_def shared_subscribe_def split_beta
        on_loading_def)
next
  case (SubscribeDerived a)
  with assms show ?thesis by (simp add: idle_def subscribe_derived_def split_beta)
next
  case (CheckSettled p outcome)
  with assms show ?thesis
    by (auto simp: idle_def check_settled_def shared_check_settled_def split_beta
        on_check_settled_def new_trigger_def shared_notify_def)
next
  case (AccessorSettled p outcome)
  with assms show ?thesis by (simp add: idle_def accessor_settled_def split_beta)
qed

lemma idle_run: "SetIsLoading False \<notin> set evs \<Longrightarrow> idle (run evs)"
proof (induction evs rule: rev_induct)
  case Nil
  show ?case by (simp add: run_def idle_initial)
next
  case (snoc ev evs)
  then show ?case by (auto simp: run_snoc intro: idle_step)
qed




section \<open>The profile and the flag\<close>

text \<open>
  Claim C1, as amended.  After every sequence of events, the values a subscriber of
  \<^verbatim>\<open>user$\<close> or \<^verbatim>\<open>idTokenClaims$\<close> has received follow the results of the checks of its
  own trigger subscription, one for one and in the order these resolved: a value is
  \<^verbatim>\<open>null\<close> exactly when the result was \<^verbatim>\<open>false\<close>.  The results are those of the
  subscriber's own pending checks.
\<close>

theorem derived_value_follows_own_check:
  "(\<forall>d \<in> set (deriveds (run evs)).
      take (length (seen d)) (results d) = map (\<lambda>v. v \<noteq> Null) (seen d))
   \<and> (ended d' = None \<and> p \<in> set (pending (trig d')) \<longrightarrow>
        results (fst (derived_check_settled p (Inr b) n d')) = results d' @ [b])"
proof -
  have "results (fst (concat_drain bs m x)) = results x" for bs m x
    by (induction bs m x rule: concat_drain.induct) simp_all
  then have "ended d' = None \<and> p \<in> set (pending (trig d')) \<longrightarrow>
        results (fst (derived_check_settled p (Inr b) n d')) = results d' @ [b]"
    by (simp add: derived_check_settled_def on_check_settled_def derived_notify_def
        derived_next_def Let_def split: option.splits del: concat_drain.simps)
  with run_derived_inv [of evs] show ?thesis
    by (auto simp: list_all_iff derived_inv_def)
qed

theorem derived_value_follows_own_check_witness:
  "map seen (deriveds (run [SetIsLoading False, SubscribeDerived GetUser, Refresh,
      CheckSettled 1 (Inr False), CheckSettled 0 (Inr True),
      AccessorSettled 2 (Inr (Some (Profile ''user'')))])) =
      [[Null, FromClient (Some (Profile ''user''))]]
   \<and> map results (deriveds (run [SetIsLoading False, SubscribeDerived GetUser, Refresh,
      CheckSettled 1 (Inr False), CheckSettled 0 (Inr True),
      AccessorSettled 2 (Inr (Some (Profile ''user'')))])) = [[False, True]]
   \<and> ended (fst (derived_subscribe GetUser False None 0)) = None
   \<and> 0 \<in> set (pending (trig (fst (derived_subscribe GetUser False None 0))))
   \<and> results (fst (derived_check_settled 0 (Inr False) 1
        (fst (derived_subscribe GetUser False None 0)))) = [False]"
proof -
  let ?evs = "[SetIsLoading False, SubscribeDerived GetUser, Refresh,
      CheckSettled 1 (Inr False), CheckSettled 0 (Inr True),
      AccessorSettled 2 (Inr (Some (Profile ''user'')))]"
  let ?d = "fst (derived_subscribe GetUser False None 0)"
  have a: "map seen (deriveds (run ?evs)) = [[Null, FromClient (Some (Profile ''user''))]]"
    "length (map results (deriveds (run ?evs))) = 1"
    "map (length \<circ> results) (deriveds (run ?evs)) = [2]"
    by code_simp+
  have b: "ended ?d = None" "0 \<in> set (pending (trig ?d))" "results ?d = []"
    by (simp_all add: derived_subscribe_def split_beta trigger_defs)
  from derived_value_follows_own_check [of ?evs ?d 0 False 1] a b show ?thesis
    by (cases "deriveds (run ?evs)") auto
qed

text \<open>
  Claim C1 as stated fails.  \<^verbatim>\<open>isAuthenticated$\<close> and \<^verbatim>\<open>user$\<close> subscribe the cold
  trigger separately, so each asks the client itself.  The observer of
  \<^verbatim>\<open>isAuthenticated$\<close> holds \<^verbatim>\<open>true\<close> (promise 0); the subscriber of \<^verbatim>\<open>user$\<close>, which
  attaches later, starts promise 1, to which the client answers \<^verbatim>\<open>false\<close>, and receives
  \<^verbatim>\<open>null\<close> while the flag observed last is \<^verbatim>\<open>true\<close>.
\<close>

theorem flag_and_profile_consistent_counterexample:
  "\<not> consistent (run [SetIsLoading False, SubscribeIsAuthenticated, CheckSettled 0 (Inr True),
      SubscribeDerived GetUser, CheckSettled 1 (Inr False)])
   \<and> map received (observers (isAuthenticated (run [SetIsLoading False,
      SubscribeIsAuthenticated, CheckSettled 0 (Inr True), SubscribeDerived GetUser,
      CheckSettled 1 (Inr False)]))) = [[True]]
   \<and> map seen (deriveds (run [SetIsLoading False, SubscribeIsAuthenticated,
      CheckSettled 0 (Inr True), SubscribeDerived GetUser, CheckSettled 1 (Inr False)])) = [[Null]]"
  by code_simp

section \<open>Checks overlap and are emitted as they resolve\<close>






section \<open>A check that fails\<close>

text \<open>
  Claim C3, as amended.  When a pending check of the source of \<^verbatim>\<open>isAuthenticated$\<close> is
  rejected, \<^verbatim>\<open>AuthState\<close> does not record the error in \<^verbatim>\<open>error$\<close>; no value is emitted
  for that trigger, so what the observers have received stays as it is (no \<^verbatim>\<open>false\<close>
  is emitted); the error is passed to the observers as the error notification of the
  stream, which ends them; \<^verbatim>\<open>shareReplay\<close> drops its source and its replay buffer, and
  later triggers (\<^verbatim>\<open>refresh()\<close>, \<^verbatim>\<open>setAccessToken\<close>) do not reach the stream any more.
\<close>

theorem failed_check_ends_stream:
  assumes "source (isAuthenticated s) = Some tr" "p \<in> set (pending tr)"
  shows "errorSubject (step (CheckSettled p (Inl e)) s) = errorSubject s
   \<and> observers (isAuthenticated (step (CheckSettled p (Inl e)) s)) =
       map (terminate e) (observers (isAuthenticated s))
   \<and> map received (observers (isAuthenticated (step (CheckSettled p (Inl e)) s))) =
       map received (observers (isAuthenticated s))
   \<and> source (isAuthenticated (step (CheckSettled p (Inl e)) s)) = None
   \<and> replay (isAuthenticated (step (CheckSettled p (Inl e)) s)) = None
   \<and> isAuthenticated (step Refresh (step (CheckSettled p (Inl e)) s)) =
       isAuthenticated (step (CheckSettled p (Inl e)) s)
   \<and> isAuthenticated (step (SetAccessToken t) (step (CheckSettled p (Inl e)) s)) =
       isAuthenticated (step (CheckSettled p (Inl e)) s)"
proof -
  let ?s = "step (CheckSettled p (Inl e)) s"
  have sh: "isAuthenticated ?s =
      (isAuthenticated s)\<lparr>source := None, last_value := None, replay := None,
         observers := map (terminate e) (observers (isAuthenticated s))\<rparr>"
    using assms
    by (simp add: check_settled_shared shared_check_settled_def on_check_settled_def
        shared_notify_def)
  have err: "errorSubject ?s = errorSubject s"
    by (simp add: check_settled_def split_beta)
  have later: "isAuthenticated (step Refresh ?s) = isAuthenticated ?s"
    "isAuthenticated (step (SetAccessToken t) ?s) = isAuthenticated ?s"
    using sh by (simp_all add: refresh_def setAccessToken_def broadcast_shared shared_apply_def)
  from sh err later show ?thesis
    by (simp add: o_def terminate_received)
qed

theorem failed_check_ends_stream_witness:
  "source (isAuthenticated (run [SetIsLoading False, SubscribeIsAuthenticated,
      CheckSettled 0 (Inr True), Refresh])) = Some \<lparr>switched = True, acc = seed, pending = [1]\<rparr>
   \<and> errorSubject (run [SetIsLoading False, SubscribeIsAuthenticated,
      CheckSettled 0 (Inr True), Refresh, CheckSettled 1 (Inl (Error ''boom''))]) = None
   \<and> observers (isAuthenticated (run [SetIsLoading False, SubscribeIsAuthenticated,
      CheckSettled 0 (Inr True), Refresh, CheckSettled 1 (Inl (Error ''boom''))])) =
      [\<lparr>received = [True], failure = Some (Error ''boom'')\<rparr>]"
proof -
  let ?s = "run [SetIsLoading False, SubscribeIsAuthenticated, CheckSettled 0 (Inr True), Refresh]"
  let ?tr = "\<lparr>switched = True, acc = seed, pending = [1]\<rparr>"
  have s: "isAuthenticated ?s = \<lparr>source = Some ?tr, last_value = Some True, replay = Some True,
      observers = [\<lparr>received = [True], failure = None\<rparr>]\<rparr>" "errorSubject ?s = None"
    by code_simp+
  then have a: "source (isAuthenticated ?s) = Some ?tr" by simp
  have b: "1 \<in> set (pending ?tr)" by simp
  from failed_check_ends_stream [OF a b, of "Error ''boom''"] s show ?thesis
    by (simp add: run_def terminate_def live_def)
qed

text \<open>
  Claim C3 as stated fails.  The observer has received \<^verbatim>\<open>true\<close>; a \<^verbatim>\<open>refresh()\<close>
  starts promise 1, which is rejected.  The error channel stays empty, the observer is
  ended by the error, and the next \<^verbatim>\<open>refresh()\<close> starts no check (the client has still
  handed out two promises) and can bring the observer no value.
\<close>

theorem failed_check_recorded_counterexample:
  "errorSubject (run [SetIsLoading False, SubscribeIsAuthenticated, CheckSettled 0 (Inr True),
      Refresh, CheckSettled 1 (Inl (Error ''boom''))]) = None
   \<and> observers (isAuthenticated (run [SetIsLoading False, SubscribeIsAuthenticated,
      CheckSettled 0 (Inr True), Refresh, CheckSettled 1 (Inl (Error ''boom''))])) =
      [\<lparr>received = [True], failure = Some (Error ''boom'')\<rparr>]
   \<and> calls (run [SetIsLoading False, SubscribeIsAuthenticated, CheckSettled 0 (Inr True),
      Refresh, CheckSettled 1 (Inl (Error ''boom'')), Refresh]) = 2
   \<and> observers (isAuthenticated (run [SetIsLoading False, SubscribeIsAuthenticated,
      CheckSettled 0 (Inr True), Refresh, CheckSettled 1 (Inl (Error ''boom'')), Refresh,
      CheckSettled 2 (Inr False)])) =
      [\<lparr>received = [True], failure = Some (Error ''boom'')\<rparr>]"
  by code_simp

section \<open>Suppression, deduplication and replay\<close>

lemma replay_to_new_observer:
  assumes inv: "shared_inv (isAuthenticated s)"
    and ob: "ob \<in> set (observers (isAuthenticated s))" "live ob" "received ob \<noteq> []"
  shows "observers (isAuthenticated (step SubscribeIsAuthenticated s)) =
     observers (isAuthenticated s) @ [\<lparr>received = [last (received ob)], failure = None\<rparr>]"
proof -
  from inv ob have rep: "replay (isAuthenticated s) = Some (last (received ob))"
    by (auto simp: shared_inv_def list_all_iff latest_def)
  with inv have "source (isAuthenticated s) \<noteq> None"
    by (auto simp: shared_inv_def)
  with rep show ?thesis
    by (auto simp: subscribe_isAuthenticated_def shared_subscribe_def split_beta)
qed

text \<open>
  Claim C4, as amended.  After every sequence of events: no observer of
  \<^verbatim>\<open>isAuthenticated$\<close> has received a value unless \<^verbatim>\<open>isLoading$\<close> has emitted
  \<^verbatim>\<open>false\<close>; no observer has received two equal values in a row; and when an observer
  that the stream has not ended holds a value, a new observer receives exactly that
  value at once.
\<close>

theorem isAuthenticated_suppressed_distinct_replayed:
  "(SetIsLoading False \<notin> set evs \<longrightarrow>
      list_all (\<lambda>ob. received ob = []) (observers (isAuthenticated (run evs))))
   \<and> list_all (\<lambda>ob. distinct_adj (received ob)) (observers (isAuthenticated (run evs)))
   \<and> (\<forall>ob \<in> set (observers (isAuthenticated (run evs))).
        live ob \<and> received ob \<noteq> [] \<longrightarrow>
        observers (isAuthenticated (step SubscribeIsAuthenticated (run evs))) =
          observers (isAuthenticated (run evs)) @
            [\<lparr>received = [last (received ob)], failure = None\<rparr>])"
  using idle_run [of evs] run_shared_inv [of evs] replay_to_new_observer [OF run_shared_inv, of _ evs]
  by (simp add: idle_def shared_inv_def)

text \<open>
  The three parts at concrete runs: nothing is received while loading, and a second
  observer receives the \<^verbatim>\<open>true\<close> the first one holds.
\<close>

theorem isAuthenticated_suppressed_distinct_replayed_witness:
  "SetIsLoading False \<notin> set [SubscribeIsAuthenticated, Refresh, SetAccessToken ''t'']
   \<and> map received (observers (isAuthenticated
        (run [SubscribeIsAuthenticated, Refresh, SetAccessToken ''t'']))) = [[]]
   \<and> observers (isAuthenticated
        (run [SubscribeIsAuthenticated, SetIsLoading False, CheckSettled 0 (Inr True)])) =
      [\<lparr>received = [True], failure = None\<rparr>]
   \<and> observers (isAuthenticated (step SubscribeIsAuthenticated
        (run [SubscribeIsAuthenticated, SetIsLoading False, CheckSettled 0 (Inr True)]))) =
      [\<lparr>received = [True], failure = None\<rparr>, \<lparr>received = [True], failure = None\<rparr>]"
proof -
  let ?e1 = "[SubscribeIsAuthenticated, Refresh, SetAccessToken ''t'']"
  let ?e2 = "[SubscribeIsAuthenticated, SetIsLoading False, CheckSettled 0 (Inr True)]"
  have a: "SetIsLoading False \<notin> set ?e1" by simp
  have b: "length (observers (isAuthenticated (run ?e1))) = 1" by code_simp
  have c: "observers (isAuthenticated (run ?e2)) = [\<lparr>received = [True], failure = None\<rparr>]"
    by code_simp
  from isAuthenticated_suppressed_distinct_replayed [of ?e1] a b
  have "map received (observers (isAuthenticated (run ?e1))) = [[]]"
    by (cases "observers (isAuthenticated (run ?e1))") simp_all
  moreover from isAuthenticated_suppressed_distinct_replayed [of ?e2] c
  have "observers (isAuthenticated (step SubscribeIsAuthenticated (run ?e2))) =
      [\<lparr>received = [True], failure = None\<rparr>, \<lparr>received = [True], failure = None\<rparr>]"
    by (simp add: live_def)
  ultimately show ?thesis using a c by simp
qed

text \<open>
  Claim C4 as stated fails in its last part.  The stream has emitted \<^verbatim>\<open>true\<close>; then a
  check is rejected, which makes \<^verbatim>\<open>shareReplay\<close> drop its buffer.  The observer that
  attaches afterwards receives nothing at once: its subscription starts a new check.
\<close>

theorem replay_after_failure_counterexample:
  "map received (observers (isAuthenticated (run [SetIsLoading False, SubscribeIsAuthenticated,
      CheckSettled 0 (Inr True), Refresh, CheckSettled 1 (Inl (Error ''boom''))]))) = [[True]]
   \<and> observers (isAuthenticated (run [SetIsLoading False, SubscribeIsAuthenticated,
      CheckSettled 0 (Inr True), Refresh, CheckSettled 1 (Inl (Error ''boom'')),
      SubscribeIsAuthenticated])) =
      [\<lparr>received = [True], failure = Some (Error ''boom'')\<rparr>, \<lparr>received = [], failure = None\<rparr>]"
  by code_simp

section \<open>The loading flag\<close>










section \<open>The redirect callback\<close>

lemma startup_callback:
  assumes "pending_callback loc" "\<not> skipRedirectCallback c"
  shows "service_step (Startup loc) (new_service c) =
     (new_service c)\<lparr>phase := ProcessingCallback, callbackCalls := 1\<rparr>"
  using assms by (simp add: startup_def new_service_def)

lemma processing_step:
  assumes "phase sv = ProcessingCallback" "\<not> settles ev"
  shows "phase (service_step ev sv) = ProcessingCallback
    \<and> navigations (service_step ev sv) = navigations sv
    \<and> callbackCalls (service_step ev sv) = callbackCalls sv
    \<and> cfg (service_step ev sv) = cfg sv"
  using assms
  by (cases ev) (simp_all add: startup_def session_checked_def destroy_def logout_def)

lemma processing_fold:
  "phase sv = ProcessingCallback \<Longrightarrow> list_all (\<lambda>ev. \<not> settles ev) evs \<Longrightarrow>
   phase (fold service_step evs sv) = ProcessingCallback
    \<and> navigations (fold service_step evs sv) = navigations sv
    \<and> callbackCalls (fold service_step evs sv) = callbackCalls sv
    \<and> cfg (fold service_step evs sv) = cfg sv"
proof (induction evs arbitrary: sv)
  case Nil
  then show ?case by simp
next
  case (Cons ev evs)
  from Cons.prems have "phase (service_step ev sv) = ProcessingCallback"
    "list_all (\<lambda>ev. \<not> settles ev) evs"
    by (simp_all add: processing_step)
  then have "phase (fold service_step evs (service_step ev sv)) = ProcessingCallback
    \<and> navigations (fold service_step evs (service_step ev sv)) = navigations (service_step ev sv)
    \<and> callbackCalls (fold service_step evs (service_step ev sv)) = callbackCalls (service_step ev sv)
    \<and> cfg (fold service_step evs (service_step ev sv)) = cfg (service_step ev sv)"
    by (rule Cons.IH)
  with Cons.prems show ?case by (simp add: processing_step)
qed



lemma awaiting_callback:
  assumes "pending_callback loc" "\<not> skipRedirectCallback c" "list_all (\<lambda>ev. \<not> settles ev) evs0"
  shows "phase (service_run c (Startup loc # evs0)) = ProcessingCallback
    \<and> navigations (service_run c (Startup loc # evs0)) = []
    \<and> callbackCalls (service_run c (Startup loc # evs0)) = 1
    \<and> cfg (service_run c (Startup loc # evs0)) = c"
proof -
  let ?sv = "(new_service c)\<lparr>phase := ProcessingCallback, callbackCalls := 1\<rparr>"
  have "phase ?sv = ProcessingCallback" by simp
  from processing_fold [OF this assms(3)] startup_callback [OF assms(1,2)]
  show ?thesis by (simp add: service_run_def new_service_def)
qed




text \<open>
  Claim C7.  When the redirect-callback exchange of the startup fails with the error
  \<open>e\<close>, the error channel holds \<open>e\<close> (any subscriber of \<^verbatim>\<open>error$\<close> receives it), the
  service has navigated, once, to the configured error path or to \<^verbatim>\<open>/\<close>, and the startup
  is complete: the loading flag of an instance that was not destroyed is cleared.
\<close>

theorem callback_failure_recorded_and_navigated:
  assumes "pending_callback loc" "\<not> skipRedirectCallback c"
    and "list_all (\<lambda>ev. \<not> settles ev) evs0"
  shows "errorSubject (authState (service_run c ((Startup loc # evs0) @ [CallbackSettled (Inl e)]))) = Some e
   \<and> navigations (service_run c ((Startup loc # evs0) @ [CallbackSettled (Inl e)])) =
       [case errorPath c of Some path \<Rightarrow> path | None \<Rightarrow> ''/'']
   \<and> phase (service_run c ((Startup loc # evs0) @ [CallbackSettled (Inl e)])) = Loaded
   \<and> (\<not> destroyed (service_run c ((Startup loc # evs0) @ [CallbackSettled (Inl e)])) \<longrightarrow>
        \<not> isLoading (authState (service_run c ((Startup loc # evs0) @ [CallbackSettled (Inl e)]))))"
proof -
  let ?sv = "service_run c (Startup loc # evs0)"
  from awaiting_callback [OF assms]
  have wait: "phase ?sv = ProcessingCallback" "navigations ?sv = []" "cfg ?sv = c"
    by simp_all
  have run: "service_run c ((Startup loc # evs0) @ [CallbackSettled (Inl e)]) =
      finish_loading (handle_callback_outcome (Inl e) ?sv)"
    using wait(1) by (simp add: service_run_def callback_settled_def)
  show ?thesis
    unfolding run using wait
    by (simp add: finish_loading_def handle_callback_outcome_def navigation_target_def
        setError_def setIsLoading_fields)
qed

theorem callback_failure_recorded_and_navigated_witness:
  "pending_callback [(''code'', ''123''), (''state'', ''456'')]
   \<and> \<not> skipRedirectCallback \<lparr>skipRedirectCallback = False, errorPath = Some ''/error''\<rparr>
   \<and> errorSubject (authState (service_run \<lparr>skipRedirectCallback = False, errorPath = Some ''/error''\<rparr>
        ((Startup [(''code'', ''123''), (''state'', ''456'')] # [])
          @ [CallbackSettled (Inl (Error ''An error has occured''))]))) =
      Some (Error ''An error has occured'')
   \<and> navigations (service_run \<lparr>skipRedirectCallback = False, errorPath = Some ''/error''\<rparr>
        ((Startup [(''code'', ''123''), (''state'', ''456'')] # [])
          @ [CallbackSettled (Inl (Error ''An error has occured''))])) = [''/error'']
   \<and> \<not> isLoading (authState (service_run \<lparr>skipRedirectCallback = False, errorPath = Some ''/error''\<rparr>
        ((Startup [(''code'', ''123''), (''state'', ''456'')] # [])
          @ [CallbackSettled (Inl (Error ''An error has occured''))])))"
proof -
  let ?c = "\<lparr>skipRedirectCallback = False, errorPath = Some ''/error''\<rparr>"
  let ?loc = "[(''code'', ''123''), (''state'', ''456'')]"
  have a: "pending_callback ?loc"
    by (simp add: pending_callback_def has_param_def)
  have b: "\<not> skipRedirectCallback ?c" by simp
  have c: "list_all (\<lambda>ev. \<not> settles ev) []" by simp
  have d: "\<not> destroyed (service_run ?c ((Startup ?loc # []) @ [CallbackSettled (Inl (Error ''An error has occured''))]))"
    by code_simp
  from callback_failure_recorded_and_navigated [OF a b c, of "Error ''An error has occured''"] a d
  show ?thesis by simp
qed

section \<open>The local-only logout\<close>




section \<open>The access-token trigger fires on change\<close>





text \<open>
  The subscription of the event model handles a token as \<^verbatim>\<open>accessTokenTrigger$\<close>
  does: fed the tokens \<open>ts\<close> one by one, it starts one check for every firing.
\<close>

lemma on_token_follows_scan:
  "snd (fold (\<lambda>t trn. on_token t (snd trn) (fst trn)) ts (tr, n)) =
     n + length (filter changed (rx_scan accumulate (acc tr) (map Some ts)))
   \<and> acc (fst (fold (\<lambda>t trn. on_token t (snd trn) (fst trn)) ts (tr, n))) =
       foldl accumulate (acc tr) (map Some ts)"
proof (induction ts arbitrary: tr n)
  case Nil
  show ?case by simp
next
  case (Cons t ts)
  show ?case
  proof (cases "changed (accumulate (acc tr) (Some t))")
    case True
    then have "on_token t n tr =
        (tr\<lparr>acc := accumulate (acc tr) (Some t), pending := pending tr @ [n]\<rparr>, Suc n)"
      by (simp add: on_token_def start_check_def Let_def)
    with True Cons.IH [of "tr\<lparr>acc := accumulate (acc tr) (Some t), pending := pending tr @ [n]\<rparr>" "Suc n"]
    show ?thesis by simp
  next
    case False
    then have "on_token t n tr = (tr\<lparr>acc := accumulate (acc tr) (Some t)\<rparr>, n)"
      by (simp add: on_token_def Let_def)
    with False Cons.IH [of "tr\<lparr>acc := accumulate (acc tr) (Some t)\<rparr>" n]
    show ?thesis by simp
  qed
qed

lemma on_token_follows_accessTokenTrigger:
  "acc tr = seed \<Longrightarrow>
   snd (fold (\<lambda>t trn. on_token t (snd trn) (fst trn)) ts (tr, n)) =
     n + length (accessTokenTrigger ts)"
  using on_token_follows_scan [of ts tr n] by (simp add: accessTokenTrigger_def)

section \<open>Tokens recorded before activation\<close>




end
